theory Spec2Isabelle
  imports Complex_Main "HOL-Library.Sublist" "HOL-Library.Log_Nat"
begin

section \<open>Strings\<close>

text \<open>
  A Python \<open>str\<close> is modelled as a \<open>string\<close>; a \<open>char\<close> stands for a code point
  below 256. \<open>str.isspace\<close> holds for the code points 9-13, 28-32, 133 and 160 in that
  range; \<open>str.strip()\<close> removes them at both ends.
\<close>

definition isspace :: "char \<Rightarrow> bool" where
  "isspace c = (of_char c \<in> {9, 10, 11, 12, 13, 28, 29, 30, 31, 32, 133, 160 :: nat})"

definition strip :: "string \<Rightarrow> string" where
  "strip s = rev (dropWhile isspace (rev (dropWhile isspace s)))"

definition replace_char :: "char \<Rightarrow> char \<Rightarrow> string \<Rightarrow> string" where
  \<comment> \<open>\<open>s.replace(a, b)\<close> for one-character \<open>a\<close> and \<open>b\<close>\<close>
  "replace_char a b s = map (\<lambda>c. if c = a then b else c) s"

text \<open>
  \<open>str.count(sub)\<close>: the number of non-overlapping occurrences of \<open>sub\<close>, scanning from
  the left; for the empty \<open>sub\<close> Python answers \<open>len(s) + 1\<close>.
\<close>

function py_count :: "string \<Rightarrow> string \<Rightarrow> nat" where
  "py_count h s =
     (if s = [] then length h + 1
      else if length h < length s then 0
      else if take (length s) h = s then 1 + py_count (drop (length s) h) s
      else py_count (tl h) s)"
  by pat_completeness auto
termination
  by (relation "measure (\<lambda>(h, s). length h)") (auto simp: Suc_le_eq intro: diff_less)

declare py_count.simps [simp del]

section \<open>Delimiter detection\<close>

text \<open>
  \<open>f.readline()\<close> on a file opened in text mode: the text up to and including the first
  line end, where \<open>\r\<close>, \<open>\n\<close> and \<open>\r\n\<close> all end a line and are delivered as
  \<open>\n\<close>. The argument is the decoded content of the file.
\<close>

fun readline :: "string \<Rightarrow> string" where
  "readline [] = []"
| "readline (c # cs) =
     (if c = CHR 0x0A \<or> c = CHR 0x0D then [CHR 0x0A] else c # readline cs)"

definition candidates :: "string list" where
  "candidates = ['','', '';'', [CHR 0x09], ''|'']"

text \<open>
  The loop of \<open>_detect_sep\<close> over the candidates, with its state
  \<open>(best_sep, best_count)\<close>; the count is an \<open>int\<close> because it starts at \<open>-1\<close>.
\<close>

fun detect_loop :: "string \<Rightarrow> string list \<Rightarrow> string \<times> int \<Rightarrow> string \<times> int" where
  "detect_loop head [] best = best"
| "detect_loop head (s # ss) (best_sep, best_count) =
     (let cnt = int (py_count head s)
      in if cnt > best_count then detect_loop head ss (s, cnt)
         else detect_loop head ss (best_sep, best_count))"

definition detect_sep_head :: "string \<Rightarrow> string list \<Rightarrow> string" where
  "detect_sep_head head cands = fst (detect_loop head cands ('','', -1))"

definition detect_sep :: "string \<Rightarrow> string" where
  \<comment> \<open>\<open>_detect_sep(csv_path)\<close> with the default candidates, on the content of the file\<close>
  "detect_sep content = detect_sep_head (readline content) candidates"

section \<open>Tables\<close>

text \<open>
  A DataFrame: the length of its index and its columns in order. A cell is \<open>None\<close> when
  pandas counts it as missing (\<open>isna\<close>), and \<open>Some v\<close> otherwise. The dtype of a column is
  the one pandas inferred at load time; \<open>np.issubdtype(dtype, np.number)\<close> holds for the
  integer and floating dtypes.
\<close>

datatype dtype = Int64 | Float64 | Bool | Object | Datetime64

fun is_number :: "dtype \<Rightarrow> bool" where
  "is_number Int64 = True"
| "is_number Float64 = True"
| "is_number _ = False"

datatype 'a column = Column (cname: string) (ctype: dtype) (cells: "'a option list")

datatype 'a table = Table (nrows: nat) (columns: "'a column list")

definition wf_table :: "'a table \<Rightarrow> bool" where
  "wf_table df = list_all (\<lambda>c. length (cells c) = nrows df) (columns df)"

definition names :: "'a table \<Rightarrow> string list" where
  "names df = map cname (columns df)"

section \<open>Floating-point numbers\<close>

text \<open>
  A Python \<open>float\<close> is an IEEE 754 binary64 number. It is modelled by its exact value, a
  rational number; every arithmetic operation computes the exact result and rounds it to
  the nearest number with a 53-bit significand, ties to the even significand
  (\<open>double_round\<close>). Overflow and subnormal numbers are not modelled: the values below are
  row counts, ratios of row counts and percentages.
\<close>

definition ilog2 :: "rat \<Rightarrow> int" where
  \<comment> \<open>the binary exponent of a positive number: \<open>2 ^ ilog2 x \<le> x < 2 ^ (ilog2 x + 1)\<close>\<close>
  "ilog2 x = (case quotient_of x of (a, b) \<Rightarrow>
       let d = bitlen a - bitlen b in if 2 powi d \<le> x then d else d - 1)"

definition round_half_even :: "rat \<Rightarrow> int" where
  "round_half_even q =
     (let f = \<lfloor>q\<rfloor>; r = q - of_int f
      in if r < 1 / 2 then f else if 1 / 2 < r then f + 1 else if even f then f else f + 1)"

definition double_round :: "rat \<Rightarrow> rat" where
  "double_round x =
     (if x = 0 then 0
      else let e = ilog2 \<bar>x\<bar> - 52
           in sgn x * of_int (round_half_even (\<bar>x\<bar> / 2 powi e)) * 2 powi e)"

text \<open>
  The same rounding of a real number, for results that need not be rational (the square
  root).
\<close>

definition round_half_even_real :: "real \<Rightarrow> int" where
  "round_half_even_real q =
     (let f = \<lfloor>q\<rfloor>; r = q - of_int f
      in if r < 1 / 2 then f else if 1 / 2 < r then f + 1 else if even f then f else f + 1)"

definition double_round_real :: "real \<Rightarrow> real" where
  "double_round_real x =
     (if x = 0 then 0
      else let e = \<lfloor>log 2 \<bar>x\<bar>\<rfloor> - 52
           in sgn x * of_int (round_half_even_real (\<bar>x\<bar> / 2 powi e)) * 2 powi e)"

text \<open>
  Both roundings take the nearest multiple of a power of two; the proofs below share this
  step, stated once for every ordered field with a floor.
\<close>

definition half_even :: "'a::floor_ceiling \<Rightarrow> int" where
  "half_even q =
     (let f = \<lfloor>q\<rfloor>; r = q - of_int f
      in if r < 1 / 2 then f else if 1 / 2 < r then f + 1 else if even f then f else f + 1)"

definition round_to_exponent :: "int \<Rightarrow> 'a::floor_ceiling \<Rightarrow> 'a" where
  "round_to_exponent e x = of_int (half_even (x / 2 powi e)) * 2 powi e"

definition float_of_int :: "int \<Rightarrow> rat" where
  \<comment> \<open>the conversion of an \<open>int\<close> operand of a float operation\<close>
  "float_of_int i = double_round (of_int i)"

definition py_truediv :: "int \<Rightarrow> int \<Rightarrow> rat" where
  \<comment> \<open>\<open>a / b\<close> on ints, correctly rounded; the source guards \<open>b > 0\<close>\<close>
  "py_truediv a b = double_round (of_int a / of_int b)"

definition float_mul :: "rat \<Rightarrow> rat \<Rightarrow> rat" where
  "float_mul x y = double_round (x * y)"

definition py_round :: "rat \<Rightarrow> nat \<Rightarrow> rat" where
  \<comment> \<open>\<open>round(x, ndigits)\<close> on a float: the correctly rounded decimal with \<open>ndigits\<close> places
      (ties to even), converted back to the nearest float\<close>
  "py_round x ndigits =
     double_round (of_int (round_half_even (x * 10 ^ ndigits)) / 10 ^ ndigits)"

definition py_int :: "rat \<Rightarrow> int" where
  \<comment> \<open>\<open>int(x)\<close> on a float truncates towards zero\<close>
  "py_int x = (if 0 \<le> x then \<lfloor>x\<rfloor> else \<lceil>x\<rceil>)"

section \<open>The data dictionary\<close>

datatype error = DuplicateColumn string
  \<comment> \<open>\<open>df[c]\<close> is a DataFrame, not a Series, when the name \<open>c\<close> occurs more than once among
      the columns; the loop body of \<open>data_dictionary\<close> then raises\<close>

text \<open>
  One row of the dictionary. The stringified sample and the minimum, maximum and mean of
  the numeric columns are left out: they need the values themselves, which the model
  keeps abstract.
\<close>

record dict_row =
  column :: string
  dtype :: dtype
  non_null :: nat
  nunique :: nat
  missing :: nat
  missing_pct :: rat

definition dictionary_row :: "nat \<Rightarrow> 'a column \<Rightarrow> dict_row" where
  "dictionary_row n c =
     (let s = cells c;
          non_null = length (filter (\<lambda>v. v \<noteq> None) s);
          nunique = length (remdups (filter (\<lambda>v. v \<noteq> None) s));
          missing = length (filter (\<lambda>v. v = None) s);
          missing_pct = (if n > 0 then float_mul (py_truediv (int missing) (int n)) 100 else 0)
      in \<lparr>column = cname c, dtype = ctype c, non_null = non_null, nunique = nunique,
          missing = missing, missing_pct = py_round missing_pct 2\<rparr>)"

fun dictionary_loop :: "string list \<Rightarrow> nat \<Rightarrow> 'a column list \<Rightarrow> error + dict_row list" where
  "dictionary_loop all_names n [] = Inr []"
| "dictionary_loop all_names n (c # cs) =
     (if count_list all_names (cname c) > 1 then Inl (DuplicateColumn (cname c))
      else case dictionary_loop all_names n cs of
             Inl e \<Rightarrow> Inl e
           | Inr out \<Rightarrow> Inr (dictionary_row n c # out))"

definition data_dictionary :: "'a table \<Rightarrow> error + dict_row list" where
  "data_dictionary df = dictionary_loop (names df) (nrows df) (columns df)"

section \<open>The quality flags\<close>

record flags =
  rows :: nat
  high_missing_cols :: "string list"
  constant_cols :: "string list"
  suspected_id_like :: "string list"
  duplicate_rows :: nat

definition rows_of :: "'a table \<Rightarrow> 'a option list list" where
  "rows_of df = map (\<lambda>i. map (\<lambda>c. cells c ! i) (columns df)) [0..<nrows df]"

text \<open>
  \<open>df.duplicated()\<close> with \<open>keep="first"\<close>: a row is marked when an equal row stands before
  it, two missing cells counting as equal. On an empty DataFrame (no row or no column)
  pandas answers the empty Series.
\<close>

fun mark_duplicates :: "'r list \<Rightarrow> 'r list \<Rightarrow> bool list" where
  "mark_duplicates seen [] = []"
| "mark_duplicates seen (r # rs) = (r \<in> set seen) # mark_duplicates (r # seen) rs"

definition duplicated :: "'a table \<Rightarrow> bool list" where
  "duplicated df =
     (if nrows df = 0 \<or> columns df = [] then [] else mark_duplicates [] (rows_of df))"

definition id_threshold :: "nat \<Rightarrow> int" where
  \<comment> \<open>\<open>max(2, int(n * 0.9))\<close>\<close>
  "id_threshold n = max 2 (py_int (float_mul (float_of_int (int n)) (double_round (9 / 10))))"

text \<open>
  The dictionary is the DataFrame built from the rows; it has the columns
  \<open>missing_pct\<close> and \<open>nunique\<close> exactly when it has a row.
\<close>

definition quality_flags :: "'a table \<Rightarrow> dict_row list \<Rightarrow> flags" where
  "quality_flags df dd =
     (let n = nrows df;
          high_missing_cols =
            (if dd \<noteq> [] then map column (filter (\<lambda>r. missing_pct r > 30) dd) else []);
          constant_cols =
            (if dd \<noteq> [] then map column (filter (\<lambda>r. nunique r \<le> 1) dd) else []);
          suspected_ids =
            (if n > 0 \<and> dd \<noteq> []
             then map column (filter (\<lambda>r. int (nunique r) \<ge> id_threshold n) dd) else []);
          dup_rows = length (filter (\<lambda>b. b) (duplicated df))
      in \<lparr>rows = n, high_missing_cols = high_missing_cols, constant_cols = constant_cols,
          suspected_id_like = suspected_ids, duplicate_rows = dup_rows\<rparr>)"


section \<open>Cleaning and normalising the column names\<close>

datatype level = INFO | WARNING | ERROR

text \<open>
  What a run does, in order: a directory created, a message logged (given by its fixed
  text), or a file written. A file derived from the table carries what it is computed
  from: the dictionary, the flags, the columns a figure draws (for the grids of
  histograms and boxplots also the \<open>(rows, cols)\<close> asked of \<open>plt.subplots\<close>), the columns a
  profiling table summarises.
\<close>

datatype event =
    MakeDir string
  | Log level string
  | WriteFile string
  | WriteDictionary string "dict_row list"
  | WriteFlags string flags
  | SaveFigure string "string list"
  | SaveGrid string "int \<times> int" "string list"
  | WriteTable string "string list"

definition is_unnamed :: "string \<Rightarrow> bool" where
  \<comment> \<open>\<open>str.contains("^Unnamed")\<close>: the regular expression matches at the start only\<close>
  "is_unnamed s = prefix ''Unnamed'' s"

definition warning_all_unnamed :: event where
  "warning_all_unnamed =
     Log WARNING ''Todas las columnas fueron Unnamed. Revisa el header en read_excel.''"

definition clean_unnamed :: "'a table \<Rightarrow> 'a table \<times> event list" where
  "clean_unnamed df =
     (if list_all is_unnamed (names df)
      then (df, [warning_all_unnamed])
      else (Table (nrows df) (filter (\<lambda>c. \<not> is_unnamed (cname c)) (columns df)), []))"

definition normalize_name :: "string \<Rightarrow> string" where
  \<comment> \<open>\<open>str(c).strip().replace(" ", "_")\<close>\<close>
  "normalize_name c = replace_char CHR '' '' CHR ''_'' (strip c)"

definition normalize_columns :: "'a table \<Rightarrow> 'a table" where
  "normalize_columns df =
     Table (nrows df) (map (\<lambda>c. Column (normalize_name (cname c)) (ctype c) (cells c)) (columns df))"

definition df_cols_norm :: "'a table \<Rightarrow> 'a table" where
  \<comment> \<open>the table \<open>main\<close> derives everything from\<close>
  "df_cols_norm df = normalize_columns (fst (clean_unnamed df))"

section \<open>Charts\<close>

text \<open>
  \<open>_grid_size\<close> returns \<open>(rows, cols)\<close>. \<open>np.sqrt\<close> converts \<open>k\<close> to a double and returns the
  correctly rounded square root; \<open>k / cols\<close> is the correctly rounded quotient of two
  ints; \<open>np.ceil\<close> of a double is exact.
\<close>

definition grid_size :: "int \<Rightarrow> int \<times> int" where
  "grid_size k =
     (if k \<le> 0 then (1, 1)
      else let cols = \<lceil>double_round_real (sqrt (double_round_real (real_of_int k)))\<rceil>;
               rows = \<lceil>double_round_real (real_of_int k / real_of_int cols)\<rceil>
           in (rows, cols))"

definition py_slice_to :: "'b list \<Rightarrow> int \<Rightarrow> 'b list" where
  \<comment> \<open>\<open>xs[:m]\<close>; a negative \<open>m\<close> counts from the end\<close>
  "py_slice_to xs m = (if 0 \<le> m then take (nat m) xs else take (length xs - nat (- m)) xs)"

definition numeric_columns :: "'a table \<Rightarrow> 'a column list" where
  \<comment> \<open>\<open>df.select_dtypes(include=[np.number])\<close>\<close>
  "numeric_columns df = filter (\<lambda>c. is_number (ctype c)) (columns df)"

definition categorical_columns :: "'a table \<Rightarrow> 'a column list" where
  \<comment> \<open>\<open>df.select_dtypes(exclude=[np.number])\<close>\<close>
  "categorical_columns df = filter (\<lambda>c. \<not> is_number (ctype c)) (columns df)"

text \<open>
  Each plotting function is modelled by the directory it creates and the figure it saves,
  with the columns drawn; the drawing itself is taken not to fail. The bars of the
  missing-value chart are sorted by percentage; the order is not modelled.
\<close>

definition plot_missing_bar :: "'a table \<Rightarrow> event list" where
  "plot_missing_bar df =
     (if columns df = [] then []
      else [MakeDir ''reports/figures'',
            SaveFigure ''reports/figures/missing_bar.png'' (names df)])"

definition plot_histograms :: "'a table \<Rightarrow> int \<Rightarrow> event list" where
  "plot_histograms df max_cols =
     (let num = numeric_columns df
      in if num = [] then []
         else let cols = py_slice_to num max_cols
              in [MakeDir ''reports/figures'',
                  SaveGrid ''reports/figures/histograms.png''
                    (grid_size (int (length cols))) (map cname cols)])"

definition plot_boxplots :: "'a table \<Rightarrow> int \<Rightarrow> event list" where
  "plot_boxplots df max_cols =
     (let num = numeric_columns df
      in if num = [] then []
         else let cols = py_slice_to num max_cols
              in [MakeDir ''reports/figures'',
                  SaveGrid ''reports/figures/boxplots.png''
                    (grid_size (int (length cols))) (map cname cols)])"

definition plot_correlation :: "'a table \<Rightarrow> event list" where
  "plot_correlation df =
     (let num = numeric_columns df
      in if length num < 2 then []
         else [MakeDir ''reports/figures'',
               SaveFigure ''reports/figures/corr_matrix.png'' (map cname num)])"

section \<open>The pipeline\<close>

text \<open>
  \<open>main\<close> from the table \<open>read_any\<close> returned: what the run does, in order, and the
  exception that ended it, if any.
\<close>

record args =
  max_hist :: int
  max_box :: int

definition profiling_tables :: "'a table \<Rightarrow> event list" where
  "profiling_tables df =
     (let num = numeric_columns df
      in if num \<noteq> [] then [WriteTable ''reports/numeric_summary.csv'' (map cname num)] else []) @
     map (\<lambda>c. WriteTable (''reports/'' @ cname c @ ''_top20_value_counts.csv'') [cname c])
       (categorical_columns df)"

definition main :: "args \<Rightarrow> 'a table \<Rightarrow> event list \<times> error option" where
  "main a df0 =
     (let start = [MakeDir ''reports'', MakeDir ''reports/figures'', MakeDir ''data/interim'',
                   Log INFO ''Leyendo datos''];
          warn = snd (clean_unnamed df0);
          df = df_cols_norm df0;
          overview = [WriteFile ''data/interim/sample_head.csv'',
                      Log INFO ''Dimensiones'', Log INFO ''Primeras columnas''];
          done = [Log INFO ''Listo. Revisa carpetas reports y reports/figures.'']
      in if length (columns df) > 0
         then (case data_dictionary df of
                 Inl e \<Rightarrow> (start @ warn @ overview, Some e)
               | Inr dd \<Rightarrow>
                   (start @ warn @ overview @
                    [WriteDictionary ''reports/data_dictionary.csv'' dd,
                     WriteDictionary ''data/interim/_data_dictionary_debug.csv'' dd,
                     WriteFlags ''reports/quality_flags.json'' (quality_flags df dd),
                     Log INFO ''Flags de calidad'',
                     Log INFO ''Generando graficos...''] @
                    plot_missing_bar df @
                    plot_histograms df (max_hist a) @
                    plot_boxplots df (max_box a) @
                    plot_correlation df @
                    profiling_tables df @ done, None))
         else (start @ warn @ overview @
               [Log ERROR ''No se detectaron columnas validas en el archivo. Revisa el Excel y el header.''] @
               done, None))"

section \<open>The rule of the specification for suspected identifiers\<close>

definition spec_id_threshold :: "nat \<Rightarrow> int" where
  \<comment> \<open>\<open>max(2, ceil(0.9 \<times> row_count))\<close>, as the specification words it\<close>
  "spec_id_threshold n = max 2 \<lceil>(9 / 10 :: rat) * of_nat n\<rceil>"

section \<open>Example tables\<close>

definition id_column :: "nat column" where
  \<comment> \<open>five cells with the four different values 1, 2, 3, 4\<close>
  "id_column = Column ''id'' Int64 [Some 1, Some 2, Some 3, Some 4, Some 4]"

definition five_rows_four_ids :: "nat table" where
  "five_rows_four_ids = Table 5 [id_column]"

definition col_a :: "nat column" where
  \<comment> \<open>twenty cells, 7 of them (35%) missing\<close>
  "col_a = Column ''a'' Float64 (replicate 7 None @ map Some [0..<13])"

definition col_b :: "nat column" where
  \<comment> \<open>twenty cells, 6 of them (30%) missing\<close>
  "col_b = Column ''b'' Float64 (replicate 6 None @ map Some [0..<14])"

definition twenty_rows :: "nat table" where
  "twenty_rows = Table 20 [col_a, col_b]"


definition col_x :: "nat column" where
  \<comment> \<open>every cell is missing\<close>
  "col_x = Column ''x'' Float64 [None, None]"

definition col_y :: "nat column" where
  "col_y = Column ''y'' Int64 [Some 1, Some 2]"

definition all_missing_example :: "nat table" where
  "all_missing_example = Table 2 [col_x, col_y]"

definition dup_example :: "nat table" where
  \<comment> \<open>four rows; the third and the fourth repeat the first, missing cell included\<close>
  "dup_example = Table 4
     [Column ''id'' Int64 [Some 1, Some 2, Some 1, Some 1],
      Column ''v'' Float64 [None, Some 5, None, None]]"







section \<open>Results: delimiter detection\<close>

lemma detect_loop_inv:
  "detect_loop head cs (b, bc) = (r, rc) \<Longrightarrow>
     (r = b \<and> rc = bc \<and> (\<forall>c\<in>set cs. int (py_count head c) \<le> bc)) \<or>
     (\<exists>pre post. cs = pre @ r # post \<and> rc = int (py_count head r) \<and> bc < rc \<and>
        (\<forall>c\<in>set pre. int (py_count head c) < rc) \<and>
        (\<forall>c\<in>set post. int (py_count head c) \<le> rc))"
proof (induction cs arbitrary: b bc)
  case Nil
  then show ?case by simp
next
  case (Cons s ss)
  let ?cnt = "int (py_count head s)"
  show ?case
  proof (cases "?cnt > bc")
    case True
    with Cons.prems have run: "detect_loop head ss (s, ?cnt) = (r, rc)"
      by simp
    from Cons.IH [OF run] show ?thesis
    proof
      assume stay: "r = s \<and> rc = ?cnt \<and> (\<forall>c\<in>set ss. int (py_count head c) \<le> ?cnt)"
      then have "s # ss = [] @ r # ss \<and> rc = int (py_count head r) \<and> bc < rc \<and>
          (\<forall>c\<in>set []. int (py_count head c) < rc) \<and>
          (\<forall>c\<in>set ss. int (py_count head c) \<le> rc)"
        using True by simp
      then show ?thesis by blast
    next
      assume "\<exists>pre post. ss = pre @ r # post \<and> rc = int (py_count head r) \<and> ?cnt < rc \<and>
        (\<forall>c\<in>set pre. int (py_count head c) < rc) \<and>
        (\<forall>c\<in>set post. int (py_count head c) \<le> rc)"
      then obtain pre post where p: "ss = pre @ r # post" "rc = int (py_count head r)" "?cnt < rc"
        "\<forall>c\<in>set pre. int (py_count head c) < rc" "\<forall>c\<in>set post. int (py_count head c) \<le> rc"
        by blast
      then have "s # ss = (s # pre) @ r # post \<and> rc = int (py_count head r) \<and> bc < rc \<and>
          (\<forall>c\<in>set (s # pre). int (py_count head c) < rc) \<and>
          (\<forall>c\<in>set post. int (py_count head c) \<le> rc)"
        using True by simp
      then show ?thesis by blast
    qed
  next
    case False
    with Cons.prems have run: "detect_loop head ss (b, bc) = (r, rc)"
      by simp
    from Cons.IH [OF run] show ?thesis
    proof
      assume "r = b \<and> rc = bc \<and> (\<forall>c\<in>set ss. int (py_count head c) \<le> bc)"
      then show ?thesis using False by simp
    next
      assume "\<exists>pre post. ss = pre @ r # post \<and> rc = int (py_count head r) \<and> bc < rc \<and>
        (\<forall>c\<in>set pre. int (py_count head c) < rc) \<and>
        (\<forall>c\<in>set post. int (py_count head c) \<le> rc)"
      then obtain pre post where p: "ss = pre @ r # post" "rc = int (py_count head r)" "bc < rc"
        "\<forall>c\<in>set pre. int (py_count head c) < rc" "\<forall>c\<in>set post. int (py_count head c) \<le> rc"
        by blast
      then have "s # ss = (s # pre) @ r # post \<and> rc = int (py_count head r) \<and> bc < rc \<and>
          (\<forall>c\<in>set (s # pre). int (py_count head c) < rc) \<and>
          (\<forall>c\<in>set post. int (py_count head c) \<le> rc)"
        using False by simp
      then show ?thesis by blast
    qed
  qed
qed

lemma detect_sep_head_first_max:
  assumes "cands \<noteq> []"
  shows "\<exists>pre post. cands = pre @ detect_sep_head head cands # post \<and>
      (\<forall>c\<in>set pre. py_count head c < py_count head (detect_sep_head head cands)) \<and>
      (\<forall>c\<in>set post. py_count head c \<le> py_count head (detect_sep_head head cands))"
proof -
  obtain r rc where run: "detect_loop head cands ('','', -1) = (r, rc)"
    by (cases "detect_loop head cands ('','', -1)")
  then have r: "detect_sep_head head cands = r"
    by (simp add: detect_sep_head_def)
  from assms obtain c where "c \<in> set cands" by (cases cands) auto
  then have "\<not> (\<forall>c\<in>set cands. int (py_count head c) \<le> -1)"
    by force
  with detect_loop_inv [OF run] obtain pre post where
    "cands = pre @ r # post" "rc = int (py_count head r)"
    "\<forall>c\<in>set pre. int (py_count head c) < rc" "\<forall>c\<in>set post. int (py_count head c) \<le> rc"
    by blast
  then show ?thesis unfolding r by auto
qed

lemma py_count_char: "py_count h [c] = count_list h c"
proof (induction h)
  case Nil
  show ?case by (subst py_count.simps) simp
next
  case (Cons a h)
  show ?case using Cons.IH by (subst py_count.simps) (cases h; auto)
qed

text \<open>
  Claim C3. With the delimiter "auto", the detector returns, for every first line, the
  candidate among comma, semicolon, tab and bar that occurs most often in the line; among
  candidates with the same count the earliest listed wins: every candidate listed before
  the result occurs strictly less often, every candidate listed after it at most as often.
  For the first line \<open>a,b;c,d,e\<close> the result is the comma.
\<close>

theorem detect_sep_first_max:
  "(\<exists>pre post. candidates = pre @ detect_sep_head head candidates # post \<and>
      (\<forall>c\<in>set pre. py_count head c < py_count head (detect_sep_head head candidates)) \<and>
      (\<forall>c\<in>set post. py_count head c \<le> py_count head (detect_sep_head head candidates))) \<and>
   detect_sep_head ''a,b;c,d,e'' candidates = '','' \<and>
   detect_sep ''a,b;c,d,e'' = '',''"
proof -
  have "candidates \<noteq> []"
    by (simp add: candidates_def)
  then have "\<exists>pre post. candidates = pre @ detect_sep_head head candidates # post \<and>
      (\<forall>c\<in>set pre. py_count head c < py_count head (detect_sep_head head candidates)) \<and>
      (\<forall>c\<in>set post. py_count head c \<le> py_count head (detect_sep_head head candidates))"
    by (rule detect_sep_head_first_max)
  moreover have "detect_sep_head ''a,b;c,d,e'' candidates = '',''"
    by (simp add: detect_sep_head_def candidates_def py_count_char)
  moreover have "detect_sep ''a,b;c,d,e'' = '',''"
    by (simp add: detect_sep_def detect_sep_head_def candidates_def py_count_char)
  ultimately show ?thesis by blast
qed

text \<open>
  The theorem at the line \<open>x;y;z,w\<close>: the semicolon, listed second, occurs twice and the
  comma once, so the split of the candidates is \<open>[","]\<close>, \<open>";"\<close>, \<open>[tab, "|"]\<close>.
\<close>

theorem detect_sep_first_max_witness:
  "detect_sep_head ''x;y;z,w'' candidates = '';'' \<and>
   (\<exists>pre post. candidates = pre @ '';'' # post \<and>
      (\<forall>c\<in>set pre. py_count ''x;y;z,w'' c < py_count ''x;y;z,w'' '';'') \<and>
      (\<forall>c\<in>set post. py_count ''x;y;z,w'' c \<le> py_count ''x;y;z,w'' '';''))"
proof -
  have r: "detect_sep_head ''x;y;z,w'' candidates = '';''"
    by (simp add: detect_sep_head_def candidates_def py_count_char)
  show ?thesis
    using detect_sep_first_max [of "''x;y;z,w''"] unfolding r by simp
qed

section \<open>Results: rounding to the nearest double\<close>

lemma bitlen_rat_bounds:
  assumes "0 < a"
  shows "(2::rat) powi (bitlen a - 1) \<le> of_int a" and "of_int a < (2::rat) powi (bitlen a)"
proof -
  have pos: "1 \<le> bitlen a"
    using assms bitlen_eq_zero_iff [of a] bitlen_nonneg [of a] by linarith
  from bitlen_bounds [OF assms]
  have lo: "2 ^ nat (bitlen a - 1) \<le> a" and hi: "a < 2 ^ nat (bitlen a)"
    by simp_all
  have "(of_int (2 ^ nat (bitlen a - 1)) :: rat) \<le> of_int a"
    using lo by (simp only: of_int_le_iff)
  then show "(2::rat) powi (bitlen a - 1) \<le> of_int a"
    using pos by (simp add: power_int_def)
  have "(of_int a :: rat) < of_int (2 ^ nat (bitlen a))"
    using hi by (simp only: of_int_less_iff)
  then show "of_int a < (2::rat) powi (bitlen a)"
    using pos by (simp add: power_int_def)
qed

lemma ilog2_bounds:
  assumes "0 < x"
  shows "2 powi (ilog2 x) \<le> x \<and> x < 2 powi (ilog2 x + 1)"
proof -
  obtain a b where q: "quotient_of x = (a, b)"
    by (cases "quotient_of x")
  then have b: "0 < b" and x: "x = of_int a / of_int b"
    by (simp_all add: quotient_of_denom_pos quotient_of_div)
  with assms have a: "0 < a"
    by (simp add: zero_less_divide_iff)
  define d where "d = bitlen a - bitlen b"
  have il: "ilog2 x = (if 2 powi d \<le> x then d else d - 1)"
    by (simp add: ilog2_def q d_def Let_def)
  have bq: "(0::rat) < of_int b"
    using b by simp
  have pw: "(0::rat) < 2 powi k" for k
    by (simp add: zero_less_power_int)
  have "x < 2 powi (bitlen a) / 2 powi (bitlen b - 1)"
    unfolding x
    by (rule frac_less) (use a bitlen_rat_bounds [OF a] bitlen_rat_bounds [OF b] pw in simp_all)
  also have "\<dots> = 2 powi (d + 1)"
    by (simp add: d_def power_int_diff [symmetric] algebra_simps)
  finally have up: "x < 2 powi (d + 1)" .
  have "2 powi (d - 1) = (2::rat) powi (bitlen a - 1) / 2 powi (bitlen b)"
    by (simp add: d_def power_int_diff [symmetric] algebra_simps)
  also have "\<dots> \<le> x"
    unfolding x
    by (rule frac_le) (use a bq bitlen_rat_bounds [OF a] bitlen_rat_bounds [OF b] pw in \<open>simp_all add: less_imp_le\<close>)
  finally have lo: "2 powi (d - 1) \<le> x" .
  show ?thesis
    using up lo by (auto simp: il not_le)
qed


lemma two_powi_pos: "(0::'a::linordered_field) < 2 powi k"
  by (simp add: zero_less_power_int)

lemma ilog2_less:
  assumes "0 < x" and "x < 2 powi k"
  shows "ilog2 x < k"
proof (rule ccontr)
  assume "\<not> ilog2 x < k"
  then have "k \<le> ilog2 x" by simp
  then have "(2::rat) powi k \<le> 2 powi (ilog2 x)"
    by (intro power_int_increasing) simp_all
  with ilog2_bounds [OF assms(1)] assms(2) show False
    by simp
qed

lemma half_even_le:
  fixes q :: "'a::floor_ceiling"
  assumes "q \<le> of_int K"
  shows "half_even q \<le> K"
proof -
  have f: "\<lfloor>q\<rfloor> \<le> K"
    using assms by (simp add: floor_le_iff)
  show ?thesis
  proof (cases "q = of_int \<lfloor>q\<rfloor>")
    case True
    then have "q - of_int \<lfloor>q\<rfloor> < 1 / 2" by simp
    then show ?thesis using f by (simp add: half_even_def Let_def)
  next
    case False
    moreover have "of_int \<lfloor>q\<rfloor> \<le> q"
      by (rule of_int_floor_le)
    ultimately have "of_int \<lfloor>q\<rfloor> < q"
      by (simp only: less_le not_sym simp_thms)
    then have "(of_int \<lfloor>q\<rfloor> :: 'a) < of_int K"
      using assms by (rule less_le_trans)
    then have "\<lfloor>q\<rfloor> < K" by (simp only: of_int_less_iff)
    then show ?thesis by (simp add: half_even_def Let_def)
  qed
qed

lemma half_even_ge:
  fixes q :: "'a::floor_ceiling"
  assumes "of_int K \<le> q"
  shows "K \<le> half_even q"
proof -
  have "K \<le> \<lfloor>q\<rfloor>"
    using assms by (simp add: le_floor_iff)
  then show ?thesis by (simp add: half_even_def Let_def)
qed


lemma round_to_exponent_le:
  fixes x :: "'a::floor_ceiling"
  assumes "x \<le> of_int M * 2 powi j" and "e \<le> j"
  shows "round_to_exponent e x \<le> of_int M * 2 powi j"
proof -
  have split: "(2::'a) powi j = 2 ^ nat (j - e) * 2 powi e"
    using assms(2) by (simp add: power_int_add [symmetric] flip: power_int_of_nat)
  have "x / 2 powi e \<le> of_int M * 2 ^ nat (j - e)"
    using assms(1) two_powi_pos [of e, where 'a = 'a]
    by (simp add: split pos_divide_le_eq mult.assoc)
  then have "x / 2 powi e \<le> of_int (M * 2 ^ nat (j - e))"
    by simp
  then have "half_even (x / 2 powi e) \<le> M * 2 ^ nat (j - e)"
    by (rule half_even_le)
  then have "(of_int (half_even (x / 2 powi e)) :: 'a) \<le> of_int (M * 2 ^ nat (j - e))"
    by (simp only: of_int_le_iff)
  then have "of_int (half_even (x / 2 powi e)) * 2 powi e
      \<le> of_int (M * 2 ^ nat (j - e)) * (2::'a) powi e"
    using two_powi_pos [of e, where 'a = 'a] by (simp add: mult_right_mono)
  then show ?thesis
    unfolding round_to_exponent_def by (simp add: split mult.assoc)
qed

lemma round_to_exponent_ge:
  fixes x :: "'a::floor_ceiling"
  assumes "of_int M * 2 powi j \<le> x" and "e \<le> j"
  shows "of_int M * 2 powi j \<le> round_to_exponent e x"
proof -
  have split: "(2::'a) powi j = 2 ^ nat (j - e) * 2 powi e"
    using assms(2) by (simp add: power_int_add [symmetric] flip: power_int_of_nat)
  have "of_int M * 2 ^ nat (j - e) \<le> x / 2 powi e"
    using assms(1) two_powi_pos [of e, where 'a = 'a]
    by (simp add: split pos_le_divide_eq mult.assoc)
  then have "of_int (M * 2 ^ nat (j - e)) \<le> x / 2 powi e"
    by simp
  then have "M * 2 ^ nat (j - e) \<le> half_even (x / 2 powi e)"
    by (rule half_even_ge)
  then have "(of_int (M * 2 ^ nat (j - e)) :: 'a) \<le> of_int (half_even (x / 2 powi e))"
    by (simp only: of_int_le_iff)
  then have "of_int (M * 2 ^ nat (j - e)) * (2::'a) powi e
      \<le> of_int (half_even (x / 2 powi e)) * 2 powi e"
    using two_powi_pos [of e, where 'a = 'a] by (simp add: mult_right_mono)
  then show ?thesis
    unfolding round_to_exponent_def by (simp add: split mult.assoc)
qed


lemma round_half_even_eq: "round_half_even q = half_even q"
  by (simp add: round_half_even_def half_even_def)

lemma round_half_even_real_eq: "round_half_even_real q = half_even q"
  by (simp add: round_half_even_real_def half_even_def)




lemma double_round_pos_eq:
  assumes "0 < x"
  shows "double_round x = round_to_exponent (ilog2 x - 52) x"
  using assms by (simp add: double_round_def round_to_exponent_def round_half_even_eq Let_def)

lemma double_round_le:
  assumes "0 < x" and "x \<le> of_int M * 2 powi j" and "ilog2 x - 52 \<le> j"
  shows "double_round x \<le> of_int M * 2 powi j"
  unfolding double_round_pos_eq [OF assms(1)] using assms(2,3) by (rule round_to_exponent_le)

lemma double_round_ge:
  assumes "0 < x" and "of_int M * 2 powi j \<le> x" and "ilog2 x - 52 \<le> j"
  shows "of_int M * 2 powi j \<le> double_round x"
  unfolding double_round_pos_eq [OF assms(1)] using assms(2,3) by (rule round_to_exponent_ge)

lemma double_round_pos:
  assumes "0 < x"
  shows "0 < double_round x"
proof -
  have "of_int 1 * 2 powi (ilog2 x) \<le> double_round x"
    using assms ilog2_bounds [OF assms] by (intro double_round_ge) simp_all
  then have "2 powi (ilog2 x) \<le> double_round x"
    by simp
  then show ?thesis
    by (rule less_le_trans [OF two_powi_pos])
qed


lemma double_round_int:
  assumes "0 \<le> i" and "i < 2 ^ 53"
  shows "double_round (of_int i) = of_int i"
proof (cases "i = 0")
  case True
  then show ?thesis by (simp add: double_round_def)
next
  case False
  with assms have pos: "(0::rat) < of_int i" by simp
  have "(of_int i :: rat) < of_int (2 ^ 53)"
    using assms(2) by (simp only: of_int_less_iff)
  then have "(of_int i :: rat) < 2 powi 53" by simp
  then have e: "ilog2 (of_int i) < 53"
    using pos by (intro ilog2_less)
  have "double_round (of_int i) \<le> of_int i * 2 powi 0"
    using pos e by (intro double_round_le) simp_all
  moreover have "of_int i * 2 powi 0 \<le> double_round (of_int i)"
    using pos e by (intro double_round_ge) simp_all
  ultimately show ?thesis by simp
qed

lemma double_9_10: "double_round (9 / 10) = 8106479329266893 / 2 ^ 53"
  by code_simp

lemma id_threshold_floor:
  assumes "0 < n" and "n < 2 ^ 49"
  shows "id_threshold n = max 2 (9 * int n div 10)"
proof -
  define k where "k = 9 * int n div 10"
  define x :: rat where "x = of_int (int n) * (8106479329266893 / 2 ^ 53)"
  have n53: "int n < 2 ^ 53"
    using assms(2) by simp
  have fl: "float_of_int (int n) = of_int (int n)"
    unfolding float_of_int_def using n53 by (intro double_round_int) simp_all
  have nq: "(0::rat) < of_int (int n)"
    using assms(1) by simp
  have "int n < 2 ^ 49"
    using assms(2) by simp
  then have "(of_int (int n) :: rat) < of_int (2 ^ 49)"
    by (simp only: of_int_less_iff)
  then have nq2: "(of_int (int n) :: rat) < 2 ^ 49"
    by simp
  have xpos: "0 < x"
    using nq by (simp add: x_def)
  have xn: "x < of_int (int n)"
    using nq by (simp add: x_def)
  then have "x < 2 powi 49"
    using nq2 by simp
  then have e: "ilog2 x < 49"
    using xpos by (intro ilog2_less)
  have k1: "10 * k \<le> 9 * int n" and k2: "9 * int n \<le> 10 * k + 9"
    unfolding k_def by presburger+
  have "(of_int (10 * k) :: rat) \<le> of_int (9 * int n)"
    using k1 by (simp only: of_int_le_iff)
  then have kq1: "10 * (of_int k :: rat) \<le> 9 * of_int (int n)"
    by simp
  have "(of_int (9 * int n) :: rat) \<le> of_int (10 * k + 9)"
    using k2 by (simp only: of_int_le_iff)
  then have kq2: "9 * (of_int (int n) :: rat) \<le> 10 * of_int k + 9"
    by simp
  have x_eq: "x = 9 / 10 * of_int (int n) + of_int (int n) / 45035996273704960"
    by (simp add: x_def)
  have small: "(of_int (int n) :: rat) / 45035996273704960 < 1 / 80"
    using nq2 by simp
  have small0: "(0 :: rat) < of_int (int n) / 45035996273704960"
    using nq by simp
  have "of_int k \<le> x"
    using kq1 small0 unfolding x_eq by linarith
  then have lo: "of_int k * 2 powi 0 \<le> x"
    by simp
  have "x \<le> of_int k + 15 / 16"
    using kq2 small unfolding x_eq by linarith
  then have hi: "x \<le> of_int (16 * k + 15) * 2 powi (- 4)"
    by (simp add: power_int_minus field_simps)
  have "of_int k * 2 powi 0 \<le> double_round x"
    using xpos lo e by (intro double_round_ge) simp_all
  moreover have "double_round x \<le> of_int (16 * k + 15) * 2 powi (- 4)"
    using xpos hi e by (intro double_round_le) simp_all
  ultimately have "of_int k \<le> double_round x" and "double_round x < of_int k + 1"
    by (simp_all add: power_int_minus field_simps)
  then have "\<lfloor>double_round x\<rfloor> = k"
    by (simp add: floor_unique)
  moreover have "0 \<le> double_round x"
    using double_round_pos [OF xpos] by simp
  moreover have "float_mul (float_of_int (int n)) (double_round (9 / 10)) = double_round x"
    by (simp only: float_mul_def fl double_9_10 x_def)
  ultimately show ?thesis
    by (simp only: id_threshold_def py_int_def k_def if_True)
qed

section \<open>Results: the data dictionary\<close>

lemma count_le_1_distinct: "(\<forall>x\<in>set xs. count_list xs x \<le> 1) \<Longrightarrow> distinct xs"
proof (induction xs)
  case Nil
  show ?case by simp
next
  case (Cons a xs)
  from Cons.prems have "count_list xs a = 0"
    by simp
  then have notin: "a \<notin> set xs"
    by (simp add: count_list_0_iff)
  have "\<forall>x\<in>set xs. count_list xs x \<le> 1"
  proof
    fix x assume x: "x \<in> set xs"
    with Cons.prems have "count_list (a # xs) x \<le> 1" by simp
    then show "count_list xs x \<le> 1" by (simp split: if_splits)
  qed
  with Cons.IH notin show ?case by simp
qed

lemma dictionary_loop_Inr:
  "dictionary_loop ns n cs = Inr out \<Longrightarrow>
     out = map (dictionary_row n) cs \<and> (\<forall>c\<in>set cs. count_list ns (cname c) \<le> 1)"
  by (induction cs arbitrary: out) (auto split: if_splits sum.splits)

lemma dictionary_loop_distinct:
  "\<forall>c\<in>set cs. count_list ns (cname c) \<le> 1 \<Longrightarrow>
     dictionary_loop ns n cs = Inr (map (dictionary_row n) cs)"
  by (induction cs) auto

lemma data_dictionary_Inr:
  assumes "data_dictionary df = Inr dd"
  shows "dd = map (dictionary_row (nrows df)) (columns df)" and "distinct (names df)"
    and "map column dd = names df"
proof -
  from assms have l: "dictionary_loop (names df) (nrows df) (columns df) = Inr dd"
    by (simp add: data_dictionary_def)
  from dictionary_loop_Inr [OF l] show dd: "dd = map (dictionary_row (nrows df)) (columns df)"
    by simp
  from dictionary_loop_Inr [OF l] have "\<forall>x\<in>set (names df). count_list (names df) x \<le> 1"
    by (auto simp: names_def)
  then show "distinct (names df)"
    by (rule count_le_1_distinct)
  show "map column dd = names df"
    by (simp add: dd names_def dictionary_row_def Let_def)
qed

lemma distinct_count_le_1: "distinct xs \<Longrightarrow> count_list xs x \<le> 1"
  by (induction xs) auto

lemma data_dictionary_distinct:
  assumes "distinct (names df)"
  shows "data_dictionary df = Inr (map (dictionary_row (nrows df)) (columns df))"
proof -
  have "\<forall>c\<in>set (columns df). count_list (names df) (cname c) \<le> 1"
    using distinct_count_le_1 [OF assms] by blast
  then show ?thesis
    unfolding data_dictionary_def by (rule dictionary_loop_distinct)
qed

lemma listed_iff:
  assumes "distinct (map f xs)" and "x \<in> set xs"
  shows "f x \<in> set (map f (filter P xs)) \<longleftrightarrow> P x"
proof
  assume "f x \<in> set (map f (filter P xs))"
  then obtain y where y: "y \<in> set xs" "P y" "f y = f x"
    by auto
  from assms(1) have "inj_on f (set xs)"
    by (simp add: distinct_map)
  with y assms(2) have "y = x"
    by (auto dest: inj_onD)
  with y show "P x" by simp
next
  assume "P x"
  with assms(2) show "f x \<in> set (map f (filter P xs))"
    by auto
qed

lemma five_rows_dictionary:
  "data_dictionary five_rows_four_ids = Inr [dictionary_row 5 id_column]"
  by (simp add: five_rows_four_ids_def data_dictionary_def names_def)

lemma id_threshold_5: "id_threshold 5 = 4"
  by code_simp

lemma spec_id_threshold_5: "spec_id_threshold 5 = 5"
  by code_simp

lemma nunique_id_column: "nunique (dictionary_row 5 id_column) = 4"
  by code_simp

section \<open>Results: suspected identifiers\<close>

text \<open>
  Claim C1, as amended. For every table whose dictionary was built and whose row count
  is positive (and below \<open>2 ^ 49\<close>, so that the product \<open>n * 0.9\<close> is computed without
  visible rounding), a column is listed in \<open>suspected_id_like\<close> exactly when its
  unique-value count is at least \<open>max(2, floor(0.9 \<times> row_count))\<close>: the source truncates
  with \<open>int\<close>, it does not take the ceiling. With no rows the list is empty.
\<close>

theorem suspected_id_floor:
  assumes "data_dictionary df = Inr dd"
  shows "(0 < nrows df \<and> nrows df < 2 ^ 49 \<longrightarrow>
           (\<forall>r\<in>set dd. column r \<in> set (suspected_id_like (quality_flags df dd)) \<longleftrightarrow>
              max 2 (9 * int (nrows df) div 10) \<le> int (nunique r))) \<and>
         (nrows df = 0 \<longrightarrow> suspected_id_like (quality_flags df dd) = [])"
proof -
  have d: "distinct (map column dd)"
    using data_dictionary_Inr [OF assms] by simp
  have "column r \<in> set (suspected_id_like (quality_flags df dd)) \<longleftrightarrow>
      max 2 (9 * int (nrows df) div 10) \<le> int (nunique r)"
    if n: "0 < nrows df" "nrows df < 2 ^ 49" and r: "r \<in> set dd" for r
  proof -
    from r have "dd \<noteq> []" by auto
    then have "suspected_id_like (quality_flags df dd) =
        map column (filter (\<lambda>r. max 2 (9 * int (nrows df) div 10) \<le> int (nunique r)) dd)"
      using n by (simp add: quality_flags_def Let_def id_threshold_floor)
    then show ?thesis
      using listed_iff [OF d r] by simp
  qed
  moreover have "suspected_id_like (quality_flags df dd) = []" if "nrows df = 0"
    using that by (simp add: quality_flags_def Let_def)
  ultimately show ?thesis by blast
qed

text \<open>
  The theorem at the table of five rows whose column \<open>id\<close> has four different values:
  the threshold is \<open>max(2, floor(4.5)) = 4\<close> and the column is listed.
\<close>

theorem suspected_id_floor_witness:
  "0 < nrows five_rows_four_ids \<and> nrows five_rows_four_ids < 2 ^ 49 \<and>
   data_dictionary five_rows_four_ids = Inr [dictionary_row 5 id_column] \<and>
   max 2 (9 * int (nrows five_rows_four_ids) div 10) = 4 \<and>
   column (dictionary_row 5 id_column) \<in>
     set (suspected_id_like (quality_flags five_rows_four_ids [dictionary_row 5 id_column]))"
proof -
  have n: "nrows five_rows_four_ids = 5"
    by (simp add: five_rows_four_ids_def)
  from suspected_id_floor [OF five_rows_dictionary] show ?thesis
    by (simp add: n five_rows_dictionary nunique_id_column)
qed

text \<open>
  Claim C1 as stated fails at the same table: the rule with the ceiling asks for
  \<open>max(2, ceil(4.5)) = 5\<close> unique values, the column has four, and it is listed.
\<close>

theorem suspected_id_ceiling_counterexample:
  "data_dictionary five_rows_four_ids = Inr [dictionary_row 5 id_column] \<and>
   nrows five_rows_four_ids = 5 \<and>
   nunique (dictionary_row 5 id_column) = 4 \<and>
   column (dictionary_row 5 id_column) \<in>
     set (suspected_id_like (quality_flags five_rows_four_ids [dictionary_row 5 id_column])) \<and>
   \<not> spec_id_threshold 5 \<le> int (nunique (dictionary_row 5 id_column))"
proof -
  have "nrows five_rows_four_ids = 5"
    by (simp add: five_rows_four_ids_def)
  moreover from this have "column (dictionary_row 5 id_column) \<in>
     set (suspected_id_like (quality_flags five_rows_four_ids [dictionary_row 5 id_column]))"
    by (simp add: quality_flags_def Let_def id_threshold_5 nunique_id_column)
  ultimately show ?thesis
    by (simp add: five_rows_dictionary nunique_id_column spec_id_threshold_5)
qed

section \<open>Results: the missing percentage\<close>




lemma data_dictionary_nth:
  assumes "data_dictionary df = Inr dd" and "i < length (columns df)"
  shows "dd ! i = dictionary_row (nrows df) (columns df ! i)" and "length dd = length (columns df)"
  using data_dictionary_Inr(1) [OF assms(1)] assms(2) by simp_all



lemma twenty_rows_dictionary:
  "data_dictionary twenty_rows = Inr [dictionary_row 20 col_a, dictionary_row 20 col_b]"
  by (simp add: twenty_rows_def data_dictionary_def names_def col_a_def col_b_def)


lemma twenty_rows_pct:
  "missing_pct (dictionary_row 20 col_a) = 35"
  "missing_pct (dictionary_row 20 col_b) = 30"
  by code_simp+




section \<open>Results: columns with many missing values\<close>

lemma pct_of_35: "py_round (float_mul (double_round (7 / 20)) 100) 2 = 35"
  by code_simp

lemma pct_of_30: "py_round (float_mul (double_round (3 / 10)) 100) 2 = 30"
  by code_simp

lemma ratio_of_percent:
  assumes "0 < n" and "100 * m = p * n"
  shows "(of_nat m :: rat) / of_nat n = of_nat p / 100"
proof -
  have "(of_nat (100 * m) :: rat) = of_nat (p * n)"
    using assms(2) by (simp only:)
  then have "100 * (of_nat m :: rat) = of_nat p * of_nat n"
    by simp
  then show ?thesis
    using assms(1) by (simp add: field_simps)
qed

lemma missing_pct_of_percent:
  assumes "0 < n" and "100 * length (filter (\<lambda>v. v = None) (cells c)) = p * n"
  shows "missing_pct (dictionary_row n c) =
     py_round (float_mul (double_round (of_nat p / 100)) 100) 2"
  using assms(1)
  by (simp add: dictionary_row_def Let_def py_truediv_def ratio_of_percent [OF assms])

lemma twenty_rows_missing:
  "length (filter (\<lambda>v. v = None) (cells col_a)) = 7"
  "length (filter (\<lambda>v. v = None) (cells col_b)) = 6"
  by code_simp+

text \<open>
  Claim C4. For every table whose dictionary was built, a column is listed in
  \<open>high_missing_cols\<close> exactly when the \<open>missing_pct\<close> recorded in its dictionary row is
  strictly greater than 30. Hence a column with 35% of its cells missing is listed (its
  recorded percentage is 35) and a column with exactly 30% missing is not (its recorded
  percentage is 30).
\<close>

theorem high_missing_above_30:
  assumes "data_dictionary df = Inr dd"
  shows "(\<forall>r\<in>set dd. column r \<in> set (high_missing_cols (quality_flags df dd)) \<longleftrightarrow>
            30 < missing_pct r) \<and>
     (\<forall>c\<in>set (columns df).
        0 < nrows df \<and> 100 * length (filter (\<lambda>v. v = None) (cells c)) = 35 * nrows df \<longrightarrow>
        cname c \<in> set (high_missing_cols (quality_flags df dd))) \<and>
     (\<forall>c\<in>set (columns df).
        0 < nrows df \<and> 100 * length (filter (\<lambda>v. v = None) (cells c)) = 30 * nrows df \<longrightarrow>
        cname c \<notin> set (high_missing_cols (quality_flags df dd)))"
proof -
  have d: "distinct (map column dd)"
    using data_dictionary_Inr [OF assms] by simp
  have dd: "dd = map (dictionary_row (nrows df)) (columns df)"
    using assms by (rule data_dictionary_Inr(1))
  have hm: "high_missing_cols (quality_flags df dd) =
      map column (filter (\<lambda>r. 30 < missing_pct r) dd)"
    by (simp add: quality_flags_def Let_def)
  have listed: "column r \<in> set (high_missing_cols (quality_flags df dd)) \<longleftrightarrow> 30 < missing_pct r"
    if "r \<in> set dd" for r
    unfolding hm using d that by (rule listed_iff)
  have row: "dictionary_row (nrows df) c \<in> set dd" and
    col: "column (dictionary_row (nrows df) c) = cname c" if "c \<in> set (columns df)" for c
    using that by (simp_all add: dd dictionary_row_def Let_def)
  have "cname c \<in> set (high_missing_cols (quality_flags df dd))"
    if c: "c \<in> set (columns df)" and n: "0 < nrows df"
      and m: "100 * length (filter (\<lambda>v. v = None) (cells c)) = 35 * nrows df" for c
  proof -
    have "missing_pct (dictionary_row (nrows df) c) = 35"
      using missing_pct_of_percent [OF n m] by (simp add: pct_of_35)
    then show ?thesis
      using listed [OF row [OF c]] by (simp add: col [OF c])
  qed
  moreover have "cname c \<notin> set (high_missing_cols (quality_flags df dd))"
    if c: "c \<in> set (columns df)" and n: "0 < nrows df"
      and m: "100 * length (filter (\<lambda>v. v = None) (cells c)) = 30 * nrows df" for c
  proof -
    have "missing_pct (dictionary_row (nrows df) c) = 30"
      using missing_pct_of_percent [OF n m] by (simp add: pct_of_30)
    then show ?thesis
      using listed [OF row [OF c]] by (simp add: col [OF c])
  qed
  ultimately show ?thesis
    using listed by blast
qed

text \<open>
  The theorem at the table of twenty rows: column \<open>a\<close> has 7 missing cells and is listed,
  column \<open>b\<close> has 6 and is not.
\<close>

theorem high_missing_above_30_witness:
  "data_dictionary twenty_rows = Inr [dictionary_row 20 col_a, dictionary_row 20 col_b] \<and>
   30 < missing_pct (dictionary_row 20 col_a) \<and>
   \<not> 30 < missing_pct (dictionary_row 20 col_b) \<and>
   0 < nrows twenty_rows \<and>
   100 * length (filter (\<lambda>v. v = None) (cells col_a)) = 35 * nrows twenty_rows \<and>
   100 * length (filter (\<lambda>v. v = None) (cells col_b)) = 30 * nrows twenty_rows \<and>
   cname col_a \<in> set (high_missing_cols (quality_flags twenty_rows
      [dictionary_row 20 col_a, dictionary_row 20 col_b])) \<and>
   cname col_b \<notin> set (high_missing_cols (quality_flags twenty_rows
      [dictionary_row 20 col_a, dictionary_row 20 col_b]))"
proof -
  have n: "nrows twenty_rows = 20" and cols: "columns twenty_rows = [col_a, col_b]"
    by (simp_all add: twenty_rows_def)
  from high_missing_above_30 [OF twenty_rows_dictionary] show ?thesis
    by (simp add: n cols twenty_rows_pct twenty_rows_missing twenty_rows_dictionary)
qed

section \<open>Results: columns without values\<close>

lemma nunique_all_missing:
  assumes "\<forall>v\<in>set (cells c). v = None"
  shows "nunique (dictionary_row n c) = 0"
proof -
  have "filter (\<lambda>v. v \<noteq> None) (cells c) = []"
    using assms by (simp add: filter_empty_conv)
  then show ?thesis
    by (simp add: dictionary_row_def Let_def)
qed

lemma all_missing_example_dictionary:
  "data_dictionary all_missing_example = Inr [dictionary_row 2 col_x, dictionary_row 2 col_y]"
  by (simp add: all_missing_example_def data_dictionary_def names_def col_x_def col_y_def)

text \<open>
  Claim C10. For every table with at least one row whose dictionary was built, and every
  column all of whose cells are missing, the dictionary row of the column records 0 unique
  values (missing cells are not counted), and the column is listed in \<open>constant_cols\<close>.
\<close>

theorem all_missing_is_constant:
  assumes "0 < nrows df" and "data_dictionary df = Inr dd" and "i < length (columns df)"
    and "\<forall>v\<in>set (cells (columns df ! i)). v = None"
  shows "column (dd ! i) = cname (columns df ! i) \<and> nunique (dd ! i) = 0 \<and>
     cname (columns df ! i) \<in> set (constant_cols (quality_flags df dd))"
proof -
  have row: "dd ! i = dictionary_row (nrows df) (columns df ! i)" and len: "length dd = length (columns df)"
    using assms(2,3) by (rule data_dictionary_nth)+
  have col: "column (dd ! i) = cname (columns df ! i)"
    by (simp add: row dictionary_row_def Let_def)
  have nu: "nunique (dd ! i) = 0"
    unfolding row using assms(4) by (rule nunique_all_missing)
  have mem: "dd ! i \<in> set dd"
    using assms(3) len by simp
  then have "dd \<noteq> []" by auto
  then have "constant_cols (quality_flags df dd) = map column (filter (\<lambda>r. nunique r \<le> 1) dd)"
    by (simp add: quality_flags_def Let_def)
  moreover have "column (dd ! i) \<in> set (map column (filter (\<lambda>r. nunique r \<le> 1) dd))"
    using mem nu by auto
  ultimately show ?thesis
    using col nu by simp
qed

text \<open>The theorem at the table of two rows whose column \<open>x\<close> has no value.\<close>

theorem all_missing_is_constant_witness:
  "0 < nrows all_missing_example \<and> 0 < length (columns all_missing_example) \<and>
   set (cells (columns all_missing_example ! 0)) = {None} \<and>
   nunique (dictionary_row 2 col_x) = 0 \<and>
   cname col_x \<in> set (constant_cols (quality_flags all_missing_example
      [dictionary_row 2 col_x, dictionary_row 2 col_y]))"
proof -
  have h: "0 < nrows all_missing_example" "0 < length (columns all_missing_example)"
    "\<forall>v\<in>set (cells (columns all_missing_example ! 0)). v = None"
    by (simp_all add: all_missing_example_def col_x_def)
  have c: "columns all_missing_example ! 0 = col_x"
    by (simp add: all_missing_example_def)
  have s: "set (cells col_x) = {None}"
    by (simp add: col_x_def)
  from all_missing_is_constant [OF h(1) all_missing_example_dictionary h(2) h(3)] h(1,2) s
  show ?thesis
    by (simp add: c)
qed

section \<open>Results: duplicate rows\<close>

lemma mark_duplicates_length [simp]: "length (mark_duplicates seen rs) = length rs"
  by (induction rs arbitrary: seen) simp_all

lemma mark_duplicates_nth:
  "i < length rs \<Longrightarrow>
     mark_duplicates seen rs ! i \<longleftrightarrow> rs ! i \<in> set seen \<or> (\<exists>j<i. rs ! j = rs ! i)"
proof (induction rs arbitrary: seen i)
  case Nil
  then show ?case by simp
next
  case (Cons r rs)
  show ?case
  proof (cases i)
    case 0
    then show ?thesis by simp
  next
    case (Suc k)
    with Cons.prems have k: "k < length rs" by simp
    have "(\<exists>j<Suc k. (r # rs) ! j = rs ! k) \<longleftrightarrow> r = rs ! k \<or> (\<exists>j<k. rs ! j = rs ! k)"
      by (auto simp: less_Suc_eq_0_disj)
    with Cons.IH [OF k, of "r # seen"] Suc show ?thesis
      by auto
  qed
qed

lemma mark_duplicates_count:
  "length (filter (\<lambda>b. b) (mark_duplicates seen rs)) + card (set rs - set seen) = length rs"
proof (induction rs arbitrary: seen)
  case Nil
  show ?case by simp
next
  case (Cons r rs)
  define k where "k = length (filter (\<lambda>b. b) (mark_duplicates (r # seen) rs))"
  define c where "c = card (set rs - set (r # seen))"
  have IH: "k + c = length rs"
    unfolding k_def c_def by (rule Cons.IH)
  show ?case
  proof (cases "r \<in> set seen")
    case True
    then have "set (r # rs) - set seen = set rs - set (r # seen)"
      by auto
    then have "card (set (r # rs) - set seen) = c"
      by (simp only: c_def)
    moreover have "length (filter (\<lambda>b. b) (mark_duplicates seen (r # rs))) = Suc k"
      using True by (simp add: k_def)
    ultimately show ?thesis
      using IH by simp
  next
    case False
    then have s: "set (r # rs) - set seen = insert r (set rs - set (r # seen))"
      by auto
    have "card (insert r (set rs - set (r # seen))) = Suc (card (set rs - set (r # seen)))"
      by (rule card_insert_disjoint) simp_all
    then have "card (set (r # rs) - set seen) = Suc c"
      by (simp only: s c_def)
    moreover have "length (filter (\<lambda>b. b) (mark_duplicates seen (r # rs))) = k"
      using False by (simp add: k_def)
    ultimately show ?thesis
      using IH by simp
  qed
qed

lemma group_sizes_minus_one:
  "(\<Sum>r\<in>set rs. count_list rs r - 1) + card (set rs) = length rs"
proof -
  have ge: "1 \<le> count_list rs r" if "r \<in> set rs" for r
    using that count_list_0_iff [of rs r] by (cases "count_list rs r") auto
  have "(\<Sum>r\<in>set rs. count_list rs r - 1) = sum (count_list rs) (set rs) - (\<Sum>r\<in>set rs. 1)"
    by (rule sum_subtractf_nat) (rule ge)
  moreover have "sum (count_list rs) (set rs) = length rs"
    by (rule sum_count_set) simp_all
  moreover have "card (set rs) \<le> length rs"
    by (rule card_length)
  ultimately show ?thesis by simp
qed

lemma length_rows_of [simp]: "length (rows_of df) = nrows df"
  by (simp add: rows_of_def)

lemma dup_example_rows:
  "rows_of dup_example =
     [[Some 1, None], [Some 2, Some 5], [Some 1, None], [Some 1, None]]"
proof -
  have "[0..<4] = [0, 1, 2, 3::nat]"
    by (simp add: upt_conv_Cons)
  then show ?thesis
    by (simp add: rows_of_def dup_example_def)
qed

lemma dup_example_flags: "duplicate_rows (quality_flags dup_example dd) = 2"
proof -
  have "duplicated dup_example = [False, False, True, True]"
    by (simp add: duplicated_def dup_example_rows) (simp add: dup_example_def)
  then show ?thesis
    by (simp add: quality_flags_def Let_def)
qed

text \<open>
  Claim C9. For every table with at least one column (the tables \<open>main\<close> computes
  quality flags for), \<open>duplicate_rows\<close> is the number of rows equal to some earlier row;
  equivalently every group of identical rows contributes its size minus one, the first
  occurrence not being counted.
\<close>

theorem duplicate_rows_count:
  assumes "wf_table df" and "columns df \<noteq> []"
  shows "duplicate_rows (quality_flags df dd) =
       card {i. i < nrows df \<and> (\<exists>j<i. rows_of df ! j = rows_of df ! i)} \<and>
     duplicate_rows (quality_flags df dd) =
       (\<Sum>r\<in>set (rows_of df). count_list (rows_of df) r - 1)"
proof -
  define rs where "rs = rows_of df"
  have len: "length rs = nrows df"
    by (simp add: rs_def)
  have dup: "duplicate_rows (quality_flags df dd) =
      length (filter (\<lambda>b. b) (mark_duplicates [] rs))"
  proof (cases "nrows df = 0")
    case True
    then have "rs = []" using len by simp
    then show ?thesis
      using True by (simp add: quality_flags_def Let_def duplicated_def)
  next
    case False
    then show ?thesis
      using assms(2) by (simp add: quality_flags_def Let_def duplicated_def rs_def)
  qed
  have eq: "(i < length (mark_duplicates [] rs) \<and> mark_duplicates [] rs ! i) =
      (i < nrows df \<and> (\<exists>j<i. rs ! j = rs ! i))" for i
  proof (cases "i < length rs")
    case True
    from mark_duplicates_nth [OF True, of "[]"] True show ?thesis
      by (simp add: len)
  next
    case False
    then show ?thesis by (simp add: len)
  qed
  have "length (filter (\<lambda>b. b) (mark_duplicates [] rs)) =
      card {i. i < length (mark_duplicates [] rs) \<and> mark_duplicates [] rs ! i}"
    by (rule length_filter_conv_card)
  then have first: "duplicate_rows (quality_flags df dd) =
      card {i. i < nrows df \<and> (\<exists>j<i. rs ! j = rs ! i)}"
    unfolding dup by (simp only: eq)
  have "length (filter (\<lambda>b. b) (mark_duplicates [] rs)) + card (set rs) = length rs"
    using mark_duplicates_count [of "[]" rs] by simp
  with group_sizes_minus_one [of rs]
  have "duplicate_rows (quality_flags df dd) = (\<Sum>r\<in>set rs. count_list rs r - 1)"
    by (simp add: dup)
  with first show ?thesis
    by (simp add: rs_def)
qed

text \<open>
  The theorem at the table of four rows whose third and fourth row repeat the first: one
  group of three rows and one of a single row, two duplicates.
\<close>

theorem duplicate_rows_count_witness:
  "wf_table dup_example \<and> columns dup_example \<noteq> [] \<and>
   duplicate_rows (quality_flags dup_example []) = 2 \<and>
   (\<Sum>r\<in>set (rows_of dup_example). count_list (rows_of dup_example) r - 1) = 2"
proof -
  have w: "wf_table dup_example" and c: "columns dup_example \<noteq> []"
    by (simp_all add: dup_example_def wf_table_def)
  from duplicate_rows_count [OF w c, of "[]"] w c show ?thesis
    by (simp add: dup_example_flags)
qed

section \<open>Results: the column names after normalisation\<close>












section \<open>Results: the Unnamed columns\<close>
















section \<open>Results: a table without columns\<close>

lemma no_columns_after_cleaning:
  assumes "columns (df_cols_norm df) = []"
  shows "columns df = []"
proof (cases "list_all is_unnamed (names df)")
  case True
  with assms show ?thesis
    by (simp add: df_cols_norm_def normalize_columns_def clean_unnamed_def)
next
  case False
  with assms have "filter (\<lambda>c. \<not> is_unnamed (cname c)) (columns df) = []"
    by (simp add: df_cols_norm_def normalize_columns_def clean_unnamed_def)
  then have "list_all is_unnamed (names df)"
    by (simp add: filter_empty_conv names_def list_all_iff)
  with False show ?thesis by simp
qed

text \<open>
  Claim C7. For every run in which the normalised table has no column, \<open>main\<close> logs the
  error and ends normally; apart from the sample file of the normalisation step and the
  messages of the overview it writes nothing: no data dictionary, no quality flags, no
  chart and no profiling table. (A table without columns has no named column either, so
  the warning of the Unnamed step is logged as well.)
\<close>

theorem no_columns_only_overview:
  assumes "columns (df_cols_norm df) = []"
  shows "main a df =
    ([MakeDir ''reports'', MakeDir ''reports/figures'', MakeDir ''data/interim'',
      Log INFO ''Leyendo datos'',
      warning_all_unnamed,
      WriteFile ''data/interim/sample_head.csv'',
      Log INFO ''Dimensiones'', Log INFO ''Primeras columnas'',
      Log ERROR ''No se detectaron columnas validas en el archivo. Revisa el Excel y el header.'',
      Log INFO ''Listo. Revisa carpetas reports y reports/figures.''], None)"
proof -
  have "columns df = []"
    using assms by (rule no_columns_after_cleaning)
  then have "snd (clean_unnamed df) = [warning_all_unnamed]"
    by (simp add: clean_unnamed_def names_def)
  then show ?thesis
    using assms by (simp add: main_def Let_def)
qed

text \<open>The theorem at the empty table.\<close>

theorem no_columns_only_overview_witness:
  "columns (df_cols_norm (Table 0 [] :: nat table)) = [] \<and>
   main \<lparr>max_hist = 12, max_box = 8\<rparr> (Table 0 [] :: nat table) =
    ([MakeDir ''reports'', MakeDir ''reports/figures'', MakeDir ''data/interim'',
      Log INFO ''Leyendo datos'',
      warning_all_unnamed,
      WriteFile ''data/interim/sample_head.csv'',
      Log INFO ''Dimensiones'', Log INFO ''Primeras columnas'',
      Log ERROR ''No se detectaron columnas validas en el archivo. Revisa el Excel y el header.'',
      Log INFO ''Listo. Revisa carpetas reports y reports/figures.''], None)"
proof -
  have e: "columns (df_cols_norm (Table 0 [] :: nat table)) = []"
    by (simp add: df_cols_norm_def normalize_columns_def clean_unnamed_def names_def)
  from no_columns_only_overview [OF e] e show ?thesis
    by simp
qed

section \<open>Results: the chart grid\<close>

lemma real_exponent_bounds:
  fixes x :: real
  assumes "0 < x"
  shows "2 powi \<lfloor>log 2 x\<rfloor> \<le> x" and "x < 2 powi (\<lfloor>log 2 x\<rfloor> + 1)"
proof -
  have x: "2 powr (log 2 x) = x"
    using assms by simp
  have pw: "(2::real) powr real_of_int n = 2 powi n" for n
    by (rule powr_real_of_int') simp_all
  have "2 powr (of_int \<lfloor>log 2 x\<rfloor>) \<le> 2 powr (log 2 x)"
    by (intro powr_mono) simp_all
  then show "2 powi \<lfloor>log 2 x\<rfloor> \<le> x"
    by (simp only: x pw)
  have "2 powr (log 2 x) < 2 powr (of_int (\<lfloor>log 2 x\<rfloor> + 1))"
    by (intro powr_less_mono) simp_all
  then show "x < 2 powi (\<lfloor>log 2 x\<rfloor> + 1)"
    by (simp only: x pw)
qed

lemma real_exponent_less:
  fixes x :: real
  assumes "0 < x" and "x < 2 powi k"
  shows "\<lfloor>log 2 x\<rfloor> < k"
proof (rule ccontr)
  assume "\<not> \<lfloor>log 2 x\<rfloor> < k"
  then have "k \<le> \<lfloor>log 2 x\<rfloor>" by simp
  then have "(2::real) powi k \<le> 2 powi \<lfloor>log 2 x\<rfloor>"
    by (intro power_int_increasing) simp_all
  with real_exponent_bounds(1) [OF assms(1)] assms(2) show False
    by simp
qed

lemma double_round_real_pos_eq:
  assumes "0 < x"
  shows "double_round_real x = round_to_exponent (\<lfloor>log 2 x\<rfloor> - 52) x"
  using assms
  by (simp add: double_round_real_def round_to_exponent_def round_half_even_real_eq Let_def)

lemma double_round_real_le:
  assumes "0 < x" and "x \<le> of_int M * 2 powi j" and "\<lfloor>log 2 x\<rfloor> - 52 \<le> j"
  shows "double_round_real x \<le> of_int M * 2 powi j"
  unfolding double_round_real_pos_eq [OF assms(1)] using assms(2,3) by (rule round_to_exponent_le)

lemma double_round_real_ge:
  assumes "0 < x" and "of_int M * 2 powi j \<le> x" and "\<lfloor>log 2 x\<rfloor> - 52 \<le> j"
  shows "of_int M * 2 powi j \<le> double_round_real x"
  unfolding double_round_real_pos_eq [OF assms(1)] using assms(2,3) by (rule round_to_exponent_ge)

lemma double_round_real_int:
  assumes "0 \<le> i" and "i < 2 ^ 53"
  shows "double_round_real (of_int i) = of_int i"
proof (cases "i = 0")
  case True
  then show ?thesis by (simp add: double_round_real_def)
next
  case False
  with assms have pos: "(0::real) < of_int i" by simp
  have "(of_int i :: real) < of_int (2 ^ 53)"
    using assms(2) by (simp only: of_int_less_iff)
  then have "(of_int i :: real) < 2 powi 53" by simp
  then have e: "\<lfloor>log 2 (of_int i)\<rfloor> < 53"
    using pos by (intro real_exponent_less)
  have "double_round_real (of_int i) \<le> of_int i * 2 powi 0"
    using pos e by (intro double_round_real_le) simp_all
  moreover have "of_int i * 2 powi 0 \<le> double_round_real (of_int i)"
    using pos e by (intro double_round_real_ge) simp_all
  ultimately show ?thesis by simp
qed

text \<open>Rounding keeps the ceiling of a number that is not too close above an integer.\<close>

lemma ceiling_double_round_real:
  assumes "0 < x" and "x < 2 powi 25"
    and "of_int c - 1 + 2 powi (- 27) \<le> x" and "x \<le> of_int c"
  shows "\<lceil>double_round_real x\<rceil> = c"
proof -
  have e: "\<lfloor>log 2 x\<rfloor> < 25"
    using assms(1,2) by (rule real_exponent_less)
  have "double_round_real x \<le> of_int c * 2 powi 0"
    using assms(1,4) e by (intro double_round_real_le) simp_all
  then have up: "double_round_real x \<le> of_int c"
    by simp
  have g: "of_int c - 1 + 2 powi (- 27) = (of_int ((c - 1) * 2 ^ 27 + 1) :: real) * 2 powi (- 27)"
    by (simp add: power_int_minus field_simps)
  have "of_int ((c - 1) * 2 ^ 27 + 1) * 2 powi (- 27) \<le> double_round_real x"
    using assms(1) assms(3) [unfolded g] e by (intro double_round_real_ge) simp_all
  then have "of_int c - 1 + 2 powi (- 27) \<le> double_round_real x"
    by (simp only: g)
  moreover have "(0::real) < 2 powi (- 27)"
    by (rule two_powi_pos)
  ultimately have "of_int c - 1 < double_round_real x"
    by linarith
  then show ?thesis
    using up by (rule ceiling_unique)
qed

lemma sqrt_below_2_25:
  assumes "0 < k" and "k < 2 ^ 50"
  shows "1 \<le> sqrt (real_of_int k)" and "sqrt (real_of_int k) < 2 powi 25"
proof -
  have "1 \<le> real_of_int k"
    using assms(1) by simp
  then show "1 \<le> sqrt (real_of_int k)"
    by simp
  have "real_of_int k < of_int (2 ^ 50)"
    using assms(2) by (simp only: of_int_less_iff)
  then have "real_of_int k < (2 ^ 25)\<^sup>2"
    by simp
  then have "sqrt (real_of_int k) < 2 ^ 25"
    by (intro real_less_lsqrt) simp_all
  then show "sqrt (real_of_int k) < 2 powi 25"
    by simp
qed

lemma grid_cols:
  assumes "0 < k" and "k < 2 ^ 50"
  shows "\<lceil>double_round_real (sqrt (double_round_real (real_of_int k)))\<rceil> = \<lceil>sqrt (real_of_int k)\<rceil>"
proof -
  define x where "x = sqrt (real_of_int k)"
  define c where "c = \<lceil>x\<rceil>"
  define a where "a = real_of_int (c - 1)"
  have k53: "k < 2 ^ 53"
    using assms(2) by simp
  have conv: "double_round_real (real_of_int k) = real_of_int k"
    using assms(1) k53 by (intro double_round_real_int) simp_all
  have x1: "1 \<le> x" and x25: "x < 2 powi 25"
    unfolding x_def using assms by (rule sqrt_below_2_25)+
  have xc: "x \<le> of_int c" and ax: "a < x"
    unfolding c_def a_def by linarith+
  have "0 < c"
    using x1 xc by (simp add: c_def)
  then have a0: "0 \<le> a"
    by (simp add: a_def)
  have a25: "a < 2 ^ 25"
    using ax x25 by simp
  have xx: "x\<^sup>2 = real_of_int k"
    using assms(1) by (simp add: x_def)
  have "a\<^sup>2 < x\<^sup>2"
    using a0 ax by (intro power_strict_mono) simp_all
  then have "real_of_int ((c - 1)\<^sup>2) < real_of_int k"
    by (simp add: xx a_def)
  then have "(c - 1)\<^sup>2 < k"
    by (simp only: of_int_less_iff)
  then have "(c - 1)\<^sup>2 + 1 \<le> k"
    by simp
  then have "real_of_int ((c - 1)\<^sup>2 + 1) \<le> real_of_int k"
    by (simp only: of_int_le_iff)
  then have ak: "a\<^sup>2 + 1 \<le> real_of_int k"
    by (simp add: a_def)
  have eps: "(2::real) powi (- 27) = 1 / 2 ^ 27"
    by (simp add: power_int_minus_divide)
  have "(a + 1 / 2 ^ 27)\<^sup>2 = a\<^sup>2 + a * (1 / 2 ^ 26) + 1 / 2 ^ 54"
    by (simp add: power2_sum field_simps)
  also have "\<dots> \<le> a\<^sup>2 + 1"
    using a25 a0 by simp
  finally have "(a + 1 / 2 ^ 27)\<^sup>2 \<le> real_of_int k"
    using ak by simp
  then have "a + 1 / 2 ^ 27 \<le> x"
    unfolding x_def by (rule real_le_rsqrt)
  then have low: "of_int c - 1 + 2 powi (- 27) \<le> x"
    by (simp add: a_def eps)
  have "0 < x"
    using x1 by simp
  then have "\<lceil>double_round_real x\<rceil> = c"
    using x25 low xc by (rule ceiling_double_round_real)
  then show ?thesis
    by (simp add: conv x_def c_def)
qed

lemma grid_rows:
  assumes "0 < k" and "k < 2 ^ 50" and "c = \<lceil>sqrt (real_of_int k)\<rceil>"
  shows "\<lceil>double_round_real (real_of_int k / real_of_int c)\<rceil> = \<lceil>real_of_int k / real_of_int c\<rceil>"
proof -
  define x where "x = sqrt (real_of_int k)"
  define q where "q = real_of_int k / real_of_int c"
  define r where "r = \<lceil>q\<rceil>"
  have x1: "1 \<le> x" and x25: "x < 2 powi 25"
    unfolding x_def using assms(1,2) by (rule sqrt_below_2_25)+
  have xc: "x \<le> of_int c"
    unfolding assms(3) x_def by linarith
  have cpos: "0 < real_of_int c"
    using x1 xc by linarith
  have "x \<le> 2 ^ 25"
    using x25 by simp
  then have "x \<le> of_int (2 ^ 25)"
    by simp
  then have "c \<le> 2 ^ 25"
    unfolding assms(3) x_def by (simp only: ceiling_le_iff)
  then have "real_of_int c \<le> of_int (2 ^ 25)"
    by (simp only: of_int_le_iff)
  then have c25: "real_of_int c \<le> 2 ^ 25"
    by simp
  have xx: "x * x = real_of_int k"
    using assms(1) by (simp add: x_def)
  have kpos: "0 < real_of_int k"
    using assms(1) by simp
  have qpos: "0 < q"
    using kpos cpos by (simp add: q_def)
  have "real_of_int k \<le> x * real_of_int c"
    unfolding xx [symmetric] using xc x1 by (intro mult_left_mono) simp_all
  then have "q \<le> x"
    using cpos by (simp add: q_def pos_divide_le_eq)
  then have q25: "q < 2 powi 25"
    using x25 by simp
  have qr: "q \<le> of_int r" and rq: "real_of_int (r - 1) < q"
    unfolding r_def by linarith+
  from rq have "real_of_int (r - 1) * real_of_int c < real_of_int k"
    using cpos by (simp add: q_def pos_less_divide_eq)
  then have "real_of_int ((r - 1) * c) < real_of_int k"
    by simp
  then have "(r - 1) * c < k"
    by (simp only: of_int_less_iff)
  then have "(r - 1) * c + 1 \<le> k"
    by simp
  then have "real_of_int ((r - 1) * c + 1) \<le> real_of_int k"
    by (simp only: of_int_le_iff)
  then have "real_of_int (r - 1) * real_of_int c + 1 \<le> real_of_int k"
    by simp
  then have "(real_of_int (r - 1) * real_of_int c + 1) / real_of_int c \<le> q"
    unfolding q_def using cpos by (intro divide_right_mono) simp_all
  then have "real_of_int (r - 1) + 1 / real_of_int c \<le> q"
    using cpos by (simp add: add_divide_distrib)
  moreover have "1 / 2 ^ 27 \<le> 1 / real_of_int c"
    using cpos c25 by (intro divide_left_mono) simp_all
  moreover have eps: "(2::real) powi (- 27) = 1 / 2 ^ 27"
    by (simp add: power_int_minus_divide)
  ultimately have low: "of_int r - 1 + 2 powi (- 27) \<le> q"
    by simp
  have "\<lceil>double_round_real q\<rceil> = r"
    using qpos q25 low qr by (rule ceiling_double_round_real)
  then show ?thesis
    by (simp add: q_def r_def)
qed

lemma grid_size_pos:
  assumes "0 < k" and "k < 2 ^ 50"
  shows "grid_size k =
    (\<lceil>real_of_int k / real_of_int \<lceil>sqrt (real_of_int k)\<rceil>\<rceil>, \<lceil>sqrt (real_of_int k)\<rceil>)"
proof -
  have c: "\<lceil>double_round_real (sqrt (double_round_real (real_of_int k)))\<rceil> = \<lceil>sqrt (real_of_int k)\<rceil>"
    using assms by (rule grid_cols)
  have r: "\<lceil>double_round_real (real_of_int k / real_of_int \<lceil>sqrt (real_of_int k)\<rceil>)\<rceil>
      = \<lceil>real_of_int k / real_of_int \<lceil>sqrt (real_of_int k)\<rceil>\<rceil>"
    using assms by (rule grid_rows) simp
  show ?thesis
    using assms(1) by (simp add: grid_size_def Let_def c r)
qed

lemma ceiling_sqrt_7: "\<lceil>sqrt 7\<rceil> = 3"
proof (rule ceiling_unique)
  have "(2::real)\<^sup>2 < 7" by simp
  then have "2 < sqrt 7" by (rule real_less_rsqrt)
  then show "of_int 3 - 1 < sqrt 7" by simp
  have "sqrt 7 \<le> 3" by (rule real_le_lsqrt) simp_all
  then show "sqrt 7 \<le> of_int 3" by simp
qed

lemma ceiling_sqrt_12: "\<lceil>sqrt 12\<rceil> = 4"
proof (rule ceiling_unique)
  have "(3::real)\<^sup>2 < 12" by simp
  then have "3 < sqrt 12" by (rule real_less_rsqrt)
  then show "of_int 4 - 1 < sqrt 12" by simp
  have "sqrt 12 \<le> 4" by (rule real_le_lsqrt) simp_all
  then show "sqrt 12 \<le> of_int 4" by simp
qed

text \<open>
  Claim C6. For every positive number \<open>k\<close> of selected numeric columns (below \<open>2 ^ 50\<close>,
  where the rounding of the double square root and quotient cannot change a ceiling), the
  grid has \<open>cols = ceil(sqrt(k))\<close> columns and \<open>rows = ceil(k / cols)\<close> rows, and so at
  least \<open>k\<close> cells; for \<open>k = 7\<close> it has 3 rows and 3 columns.
\<close>

theorem grid_size_ceilings:
  "(0 < k \<and> k < 2 ^ 50 \<longrightarrow>
      snd (grid_size k) = \<lceil>sqrt (real_of_int k)\<rceil> \<and>
      fst (grid_size k) = \<lceil>real_of_int k / real_of_int (snd (grid_size k))\<rceil> \<and>
      k \<le> fst (grid_size k) * snd (grid_size k)) \<and>
   grid_size 7 = (3, 3)"
proof -
  have general: "snd (grid_size k) = \<lceil>sqrt (real_of_int k)\<rceil> \<and>
      fst (grid_size k) = \<lceil>real_of_int k / real_of_int (snd (grid_size k))\<rceil> \<and>
      k \<le> fst (grid_size k) * snd (grid_size k)"
    if k: "0 < k" "k < 2 ^ 50"
  proof -
    define c where "c = \<lceil>sqrt (real_of_int k)\<rceil>"
    define r where "r = \<lceil>real_of_int k / real_of_int c\<rceil>"
    have g: "grid_size k = (r, c)"
      unfolding r_def c_def using k by (rule grid_size_pos)
    have "1 \<le> sqrt (real_of_int k)"
      using k by (rule sqrt_below_2_25)
    moreover have "sqrt (real_of_int k) \<le> real_of_int c"
      unfolding c_def by linarith
    ultimately have cpos: "0 < real_of_int c"
      by linarith
    have "real_of_int k / real_of_int c \<le> real_of_int r"
      unfolding r_def by linarith
    then have "real_of_int k \<le> real_of_int r * real_of_int c"
      using cpos by (simp add: pos_divide_le_eq)
    then have "real_of_int k \<le> real_of_int (r * c)"
      by simp
    then have "k \<le> r * c"
      by (simp only: of_int_le_iff)
    then show ?thesis
      by (simp add: g r_def c_def)
  qed
  have "grid_size 7 = (3, 3)"
    using grid_size_pos [of 7] by (simp add: ceiling_sqrt_7)
  with general show ?thesis
    by blast
qed

text \<open>The theorem at \<open>k = 12\<close>: 4 columns and 3 rows.\<close>

theorem grid_size_ceilings_witness:
  "0 < (12::int) \<and> (12::int) < 2 ^ 50 \<and> grid_size 12 = (3, 4) \<and> (12::int) \<le> 3 * 4"
proof -
  have h: "0 < (12::int) \<and> (12::int) < 2 ^ 50"
    by simp
  from grid_size_ceilings [of 12] h
  have "snd (grid_size 12) = 4"
    and "fst (grid_size 12) = \<lceil>real_of_int 12 / real_of_int (snd (grid_size 12))\<rceil>"
    by (simp_all add: ceiling_sqrt_12)
  then have "grid_size 12 = (3, 4)"
    by (simp add: prod_eq_iff)
  then show ?thesis
    by simp
qed

end
